theory Spec2Isabelle
  imports Complex_Main "HOL-Library.Sublist"
begin

section \<open>Strings as the program uses them\<close>

text \<open>
  Python strings are modelled as \<open>string\<close> (lists of characters).  Case folding and
  whitespace are the ASCII ones: \<open>lower\<close> maps \<open>A\<close>..\<open>Z\<close> to \<open>a\<close>..\<open>z\<close> and keeps
  every other character, so it preserves length, as Python's \<open>str.lower\<close> does on
  ASCII text.  An exception is represented by its message \<open>str(e)\<close>.
\<close>

type_synonym exn = string

definition lower_char :: "char \<Rightarrow> char" where
  "lower_char c =
     (let n = (of_char c :: nat) in if 65 \<le> n \<and> n \<le> 90 then char_of (n + 32) else c)"

definition lower :: "string \<Rightarrow> string" where
  "lower s = map lower_char s"

text \<open>\<open>sub in s\<close>: some suffix of \<open>s\<close> starts with \<open>sub\<close>.\<close>

fun contains :: "string \<Rightarrow> string \<Rightarrow> bool" where
  "contains sub [] = (sub = [])"
| "contains sub (c # cs) = (prefix sub (c # cs) \<or> contains sub cs)"

text \<open>\<open>s.find(sub)\<close>: the least index at which \<open>sub\<close> starts, or \<open>-1\<close>.\<close>

fun find_from :: "nat \<Rightarrow> string \<Rightarrow> string \<Rightarrow> int" where
  "find_from i sub [] = (if sub = [] then int i else - 1)"
| "find_from i sub (c # cs) =
     (if prefix sub (c # cs) then int i else find_from (Suc i) sub cs)"

definition find :: "string \<Rightarrow> string \<Rightarrow> int" where
  "find s sub = find_from 0 sub s"

text \<open>\<open>s.endswith(suffix)\<close>.\<close>

definition endswith :: "string \<Rightarrow> string \<Rightarrow> bool" where
  "endswith s suf = suffix suf s"

text \<open>
  \<open>s.replace(old, '')\<close> for a non-empty \<open>old\<close>: the non-overlapping occurrences of
  \<open>old\<close> are removed from left to right in one pass.  (The program only calls it
  with the constants \<open>.txt\<close> and \<open>.json\<close>; for an empty \<open>old\<close> nothing is removed.)
\<close>

function remove_all :: "string \<Rightarrow> string \<Rightarrow> string" where
  "remove_all old [] = []"
| "remove_all old (c # cs) =
     (if old \<noteq> [] \<and> prefix old (c # cs)
      then remove_all old (drop (length old) (c # cs))
      else c # remove_all old cs)"
  by pat_completeness auto
termination
  by (relation "measure (\<lambda>(old, s). length s)") auto

text \<open>ASCII whitespace as \<open>str.isspace\<close> sees it; \<open>s.strip()\<close> trims it at both ends.\<close>

definition is_space :: "char \<Rightarrow> bool" where
  "is_space c = (let n = (of_char c :: nat) in (9 \<le> n \<and> n \<le> 13) \<or> (28 \<le> n \<and> n \<le> 32))"

definition strip :: "string \<Rightarrow> string" where
  "strip s = rev (dropWhile is_space (rev (dropWhile is_space s)))"

text \<open>\<open>len(text.split())\<close>: the number of maximal runs of non-whitespace characters.\<close>

fun count_runs :: "bool \<Rightarrow> string \<Rightarrow> nat" where
  "count_runs in_word [] = 0"
| "count_runs in_word (c # cs) =
     (if is_space c then count_runs False cs
      else (if in_word then 0 else 1) + count_runs True cs)"

definition count_tokens :: "string \<Rightarrow> nat" where
  "count_tokens text = count_runs False text"

section \<open>What the user interface is told\<close>

datatype ui_event =
    WarnCouldNotRead string exn
  | WarnCouldNotCheck exn
  | WarnFailedToIndex string exn
  | WarnTimeout
  | StatusText nat nat string
  | ProgressBar real
  | SuccessIndexingComplete nat
  | InfoProgress nat nat real real
  | InfoWaiting real

section \<open>Status check\<close>

record index_doc =
  path :: string
  index_status :: string

text \<open>
  \<open>check_corpus_indexed\<close>.  The argument is what
  \<open>client.documents.get_info_list\<close> does: it raises (\<open>Inl\<close>) or returns the documents
  under the prefix.  The result is the warnings shown and what the function
  does: raise (\<open>Inl\<close>) or return its triple (\<open>Inr\<close>).
\<close>

definition check_corpus_indexed ::
  "exn + index_doc list \<Rightarrow> ui_event list \<times> (exn + bool \<times> nat \<times> nat)" where
  "check_corpus_indexed response =
     (case response of
        Inr documents \<Rightarrow>
          (let total_docs = length documents;
               indexed_docs = length (filter (\<lambda>doc. index_status doc = ''indexed'') documents)
           in ([], Inr (total_docs > 0, indexed_docs, total_docs)))
      | Inl e \<Rightarrow> ([WarnCouldNotCheck e], Inr (False, 0, 0)))"

section \<open>Download and extraction\<close>

text \<open>
  A file found by the walk over the extracted archive: its base name and what
  opening and reading it as UTF-8 does (\<open>Inl\<close>: it raises, for instance on a byte
  sequence that does not decode).
\<close>

record extracted_file =
  file_name :: string
  file_read :: "exn + string"

datatype archive = BadZipFile exn | Extracted "extracted_file list"

record document =
  doc_id :: string
  doc_content :: string
  doc_filename :: string
  doc_corpus_name :: string
  doc_original_path :: string

definition make_id :: "string \<Rightarrow> string \<Rightarrow> string" where
  "make_id corpus_name file =
     corpus_name @ ''_'' @ remove_all ''.json'' (remove_all ''.txt'' file)"

text \<open>The body of the loop over the files: the documents and the warnings so far.\<close>

definition read_file ::
  "string \<Rightarrow> document list \<times> ui_event list \<Rightarrow> extracted_file \<Rightarrow> document list \<times> ui_event list" where
  "read_file corpus_name acc f =
     (case acc of (documents, warnings) \<Rightarrow>
        let file = file_name f in
        if endswith file ''.txt'' \<or> endswith file ''.json'' then
          (case file_read f of
             Inr text \<Rightarrow>
               if strip text \<noteq> [] then
                 (documents @
                    [\<lparr>doc_id = make_id corpus_name file, doc_content = text,
                      doc_filename = file, doc_corpus_name = corpus_name,
                      doc_original_path = file\<rparr>],
                  warnings)
               else (documents, warnings)
           | Inl e \<Rightarrow> (documents, warnings @ [WarnCouldNotRead file e]))
        else (documents, warnings))"

text \<open>
  \<open>download_corpus\<close>: the request or the archive may raise, which aborts the
  function; otherwise the files are read in walk order.
\<close>

definition download_corpus ::
  "exn + archive \<Rightarrow> string \<Rightarrow> exn + document list \<times> ui_event list" where
  "download_corpus response corpus_name =
     (case response of
        Inl e \<Rightarrow> Inl e
      | Inr (BadZipFile e) \<Rightarrow> Inl e
      | Inr (Extracted files) \<Rightarrow> Inr (foldl (read_file corpus_name) ([], []) files))"

section \<open>Upload\<close>

record upload_state =
  total_tokens :: nat
  successful_docs :: nat
  failed_docs :: nat
  upload_log :: "ui_event list"

text \<open>
  The body of the upload loop for the document at position \<open>i\<close> of \<open>n\<close>; \<open>add i\<close> is
  what \<open>client.documents.add\<close> does on that call.
\<close>

definition upload_body ::
  "(nat \<Rightarrow> exn + unit) \<Rightarrow> nat \<Rightarrow> nat \<Rightarrow> document \<Rightarrow> upload_state \<Rightarrow> upload_state" where
  "upload_body add n i doc st =
     (let st1 = st\<lparr>upload_log := upload_log st @ [StatusText (i + 1) n (doc_filename doc)],
                    total_tokens := total_tokens st + count_tokens (doc_content doc)\<rparr>;
          st2 = (case add i of
                   Inr u \<Rightarrow> st1\<lparr>successful_docs := successful_docs st1 + 1\<rparr>
                 | Inl e \<Rightarrow>
                     if \<not> contains ''409'' e \<and> \<not> contains ''already exists'' (lower e)
                     then st1\<lparr>failed_docs := failed_docs st1 + 1,
                              upload_log := upload_log st1 @ [WarnFailedToIndex (doc_filename doc) e]\<rparr>
                     else st1)
      in st2\<lparr>upload_log := upload_log st2 @ [ProgressBar (real (i + 1) / real n)]\<rparr>)"

fun upload_loop ::
  "(nat \<Rightarrow> exn + unit) \<Rightarrow> nat \<Rightarrow> nat \<Rightarrow> document list \<Rightarrow> upload_state \<Rightarrow> upload_state" where
  "upload_loop add n i [] st = st"
| "upload_loop add n i (doc # docs) st = upload_loop add n (Suc i) docs (upload_body add n i doc st)"

definition upload :: "(nat \<Rightarrow> exn + unit) \<Rightarrow> document list \<Rightarrow> upload_state" where
  "upload add documents_to_process =
     upload_loop add (length documents_to_process) 0 documents_to_process
       \<lparr>total_tokens = 0, successful_docs = 0, failed_docs = 0, upload_log = []\<rparr>"

section \<open>Polling until the corpus is indexed\<close>

datatype poll_state = Polling | Converged | TimedOut | Errored

text \<open>
  The timing variables of one ingestion, from the five clock readings the program
  takes before the poll loop.
\<close>

record ingestion_run =
  download_start_time :: real
  download_time :: real
  upload_time :: real
  monitoring_start_time :: real

definition start_run :: "real \<Rightarrow> real \<Rightarrow> real \<Rightarrow> real \<Rightarrow> real \<Rightarrow> ingestion_run" where
  "start_run t_download_start t_downloaded t_indexing_start t_uploaded t_monitoring_start =
     \<lparr>download_start_time = t_download_start,
      download_time = t_downloaded - t_download_start,
      upload_time = t_uploaded - t_indexing_start,
      monitoring_start_time = t_monitoring_start\<rparr>"

record performance_stats =
  stats_total_time :: real
  stats_download_time :: real
  stats_upload_time :: real
  stats_indexing_time :: real
  stats_total_count :: nat
  stats_total_tokens :: nat

definition max_wait_time :: real where
  "max_wait_time = 600"

definition check_interval :: real where
  "check_interval = 5"

text \<open>
  What the environment does during one iteration of the loop: the clock reading at
  its head, the answer of the status query, and the clock reading taken when the
  corpus is found indexed.
\<close>

record tick_env =
  now :: real
  status_response :: "exn + index_doc list"
  now_done :: real

record tick_result =
  next_state :: poll_state
  shown :: "ui_event list"
  saved_stats :: "performance_stats option"
  fetched :: bool

text \<open>One iteration of the \<open>while True\<close> loop, up to the sleep.\<close>

definition poll_tick :: "ingestion_run \<Rightarrow> nat \<Rightarrow> tick_env \<Rightarrow> tick_result" where
  "poll_tick run tokens env =
     (let elapsed_time = now env - monitoring_start_time run in
      if elapsed_time > max_wait_time then
        \<lparr>next_state = TimedOut, shown = [WarnTimeout], saved_stats = None, fetched = False\<rparr>
      else
        (case check_corpus_indexed (status_response env) of
           (warnings, Inl e) \<Rightarrow>
             \<lparr>next_state = Errored, shown = warnings @ [WarnCouldNotCheck e],
              saved_stats = None, fetched = True\<rparr>
         | (warnings, Inr (corpus_indexed, indexed_count, total_count)) \<Rightarrow>
             if indexed_count = total_count \<and> total_count > 0 then
               (let total_time = now_done env - download_start_time run;
                    indexing_time = total_time - download_time run - upload_time run
                in \<lparr>next_state = Converged,
                    shown = warnings @ [SuccessIndexingComplete total_count],
                    saved_stats = Some
                      \<lparr>stats_total_time = total_time,
                       stats_download_time = download_time run,
                       stats_upload_time = upload_time run,
                       stats_indexing_time = indexing_time,
                       stats_total_count = total_count,
                       stats_total_tokens = tokens\<rparr>,
                    fetched = True\<rparr>)
             else if total_count > 0 then
               (let progress_pct = real indexed_count / real total_count
                in \<lparr>next_state = Polling,
                    shown = warnings @ [ProgressBar progress_pct,
                              InfoProgress indexed_count total_count progress_pct elapsed_time],
                    saved_stats = None, fetched = True\<rparr>)
             else
               \<lparr>next_state = Polling, shown = warnings @ [InfoWaiting elapsed_time],
                saved_stats = None, fetched = True\<rparr>))"

record poll_result =
  final_state :: poll_state
  poll_log :: "ui_event list"
  stats :: "performance_stats option"
  iterations :: nat
  status_fetches :: nat

text \<open>
  The loop, from iteration \<open>k\<close> on; \<open>envs k\<close> is the environment of iteration \<open>k\<close>, and
  the sleep between two iterations shows in the clock readings of \<open>envs\<close>.  The
  first argument bounds the number of iterations looked at: \<open>None\<close> means that the
  loop is still running after that many.
\<close>

fun poll_loop ::
  "nat \<Rightarrow> ingestion_run \<Rightarrow> nat \<Rightarrow> (nat \<Rightarrow> tick_env) \<Rightarrow> nat \<Rightarrow> poll_result option" where
  "poll_loop 0 run tokens envs k = None"
| "poll_loop (Suc fuel) run tokens envs k =
     (let r = poll_tick run tokens (envs k) in
      if next_state r = Polling then
        map_option
          (\<lambda>res. res\<lparr>poll_log := shown r @ poll_log res,
                     status_fetches := (if fetched r then 1 else 0) + status_fetches res\<rparr>)
          (poll_loop fuel run tokens envs (Suc k))
      else
        Some \<lparr>final_state = next_state r, poll_log = shown r, stats = saved_stats r,
              iterations = Suc k, status_fetches = (if fetched r then 1 else 0)\<rparr>)"


section \<open>Query evaluation\<close>

definition mark_open :: string where
  \<open>mark_open = ''<mark style="background-color: #90EE90; font-weight: bold;">''\<close>

definition mark_close :: string where
  "mark_close = ''</mark>''"

text \<open>Python's slice \<open>s[a:b]\<close>, with negative indices counted from the end.\<close>

definition slice_index :: "nat \<Rightarrow> int \<Rightarrow> nat" where
  "slice_index n i = (if i < 0 then nat (max 0 (int n + i)) else min n (nat i))"

definition slice :: "string \<Rightarrow> int \<Rightarrow> int \<Rightarrow> string" where
  "slice s a b = drop (slice_index (length s) a) (take (slice_index (length s) b) s)"

definition highlight_answer_in_content :: "string \<Rightarrow> string \<Rightarrow> string" where
  "highlight_answer_in_content text expected_answer =
     (if contains (lower expected_answer) (lower text) then
        (let start_idx = find (lower text) (lower expected_answer) in
         if start_idx \<noteq> - 1 then
           (let end_idx = start_idx + int (length expected_answer)
            in slice text 0 start_idx @ mark_open @ slice text start_idx end_idx @ mark_close
               @ slice text end_idx (int (length text)))
         else text)
      else text)"

record result_eval =
  highlighted_content :: string
  found_answers :: "string list"
  matches_found :: nat

text \<open>The body of the loop over the expected answers, for one result.\<close>

definition answer_step :: "string \<Rightarrow> result_eval \<Rightarrow> string \<Rightarrow> result_eval" where
  "answer_step text st answer =
     (if contains (lower answer) (lower text) then
        st\<lparr>highlighted_content := highlight_answer_in_content (highlighted_content st) answer,
           found_answers := found_answers st @ [answer],
           matches_found := matches_found st + 1\<rparr>
      else st)"

definition evaluate_result :: "nat \<Rightarrow> string \<Rightarrow> string list \<Rightarrow> result_eval" where
  "evaluate_result matches text expected_answers =
     foldl (answer_step text)
       \<lparr>highlighted_content = text, found_answers = [], matches_found = matches\<rparr>
       expected_answers"

text \<open>The loop over the results of one query; the match counter runs through.\<close>

fun evaluate_results :: "nat \<Rightarrow> string list \<Rightarrow> string list \<Rightarrow> result_eval list" where
  "evaluate_results matches expected_answers [] = []"
| "evaluate_results matches expected_answers (text # items) =
     (let r = evaluate_result matches text expected_answers
      in r # evaluate_results (matches_found r) expected_answers items)"

section \<open>Vocabulary and example data for the properties\<close>

text \<open>The test the upload loop applies to the message of a failed submission.\<close>

definition is_conflict :: "exn \<Rightarrow> bool" where
  "is_conflict e = (contains ''409'' e \<or> contains ''already exists'' (lower e))"

definition indexed_doc :: "string \<Rightarrow> index_doc" where
  "indexed_doc p = \<lparr>path = p, index_status = ''indexed''\<rparr>"


text \<open>Download from 0 to 10, upload from 10 to 20, polling from 20 on.\<close>

definition example_run :: ingestion_run where
  "example_run = start_run 0 10 10 20 20"

definition text_doc :: "string \<Rightarrow> string \<Rightarrow> document" where
  "text_doc name text =
     \<lparr>doc_id = make_id ''maud'' name, doc_content = text, doc_filename = name,
      doc_corpus_name = ''maud'', doc_original_path = name\<rparr>"

definition three_docs :: "document list" where
  "three_docs = [text_doc ''a.txt'' ''alpha'', text_doc ''b.txt'' ''beta'', text_doc ''c.txt'' ''gamma'']"

text \<open>The second submission meets a document that already exists.\<close>

definition second_conflicts :: "nat \<Rightarrow> exn + unit" where
  "second_conflicts j = (if j = 1 then Inl ''Error code: 409 - document already exists'' else Inr ())"

text \<open>The files the walk takes, and what becomes of them.\<close>

definition included :: "string \<Rightarrow> bool" where
  "included file = (endswith file ''.txt'' \<or> endswith file ''.json'')"

definition kept :: "extracted_file \<Rightarrow> bool" where
  "kept f = (included (file_name f) \<and> (case file_read f of Inr text \<Rightarrow> strip text \<noteq> [] | Inl e \<Rightarrow> False))"

definition unreadable :: "extracted_file \<Rightarrow> bool" where
  "unreadable f = (included (file_name f) \<and> isl (file_read f))"


definition document_of :: "string \<Rightarrow> extracted_file \<Rightarrow> document" where
  "document_of corpus_name f =
     \<lparr>doc_id = make_id corpus_name (file_name f),
      doc_content = (case file_read f of Inr text \<Rightarrow> text | Inl e \<Rightarrow> []),
      doc_filename = file_name f, doc_corpus_name = corpus_name,
      doc_original_path = file_name f\<rparr>"

definition warning_of :: "extracted_file \<Rightarrow> ui_event" where
  "warning_of f = WarnCouldNotRead (file_name f) (case file_read f of Inl e \<Rightarrow> e | Inr text \<Rightarrow> [])"

text \<open>Example files.\<close>

definition readable :: "string \<Rightarrow> string \<Rightarrow> extracted_file" where
  "readable name text = \<lparr>file_name = name, file_read = Inr text\<rparr>"


text \<open>
  Example environments of the poll loop.  The clock is read every 5 seconds from 20
  on, and no document ever appears.
\<close>

definition steady_waiting :: "nat \<Rightarrow> tick_env" where
  "steady_waiting k =
     \<lparr>now = 20 + 5 * real k, status_response = Inr [], now_done = 20 + 5 * real k\<rparr>"





section \<open>Properties\<close>


subsection \<open>One iteration of the poll loop\<close>

lemma poll_tick_fetch:
  assumes "\<not> now env - monitoring_start_time run > max_wait_time"
    and "check_corpus_indexed (status_response env) = (ws, Inr (b, indexed_count, total_count))"
  shows "poll_tick run tokens env =
     (if indexed_count = total_count \<and> total_count > 0 then
        \<lparr>next_state = Converged,
         shown = ws @ [SuccessIndexingComplete total_count],
         saved_stats = Some
           \<lparr>stats_total_time = now_done env - download_start_time run,
            stats_download_time = download_time run,
            stats_upload_time = upload_time run,
            stats_indexing_time =
              now_done env - download_start_time run - download_time run - upload_time run,
            stats_total_count = total_count,
            stats_total_tokens = tokens\<rparr>,
         fetched = True\<rparr>
      else if total_count > 0 then
        \<lparr>next_state = Polling,
         shown = ws @ [ProgressBar (real indexed_count / real total_count),
                   InfoProgress indexed_count total_count (real indexed_count / real total_count)
                     (now env - monitoring_start_time run)],
         saved_stats = None, fetched = True\<rparr>
      else
        \<lparr>next_state = Polling, shown = ws @ [InfoWaiting (now env - monitoring_start_time run)],
         saved_stats = None, fetched = True\<rparr>)"
  using assms by (simp add: poll_tick_def Let_def)

lemma poll_tick_timeout:
  "now env - monitoring_start_time run > max_wait_time \<Longrightarrow>
   poll_tick run tokens env =
     \<lparr>next_state = TimedOut, shown = [WarnTimeout], saved_stats = None, fetched = False\<rparr>"
  by (simp add: poll_tick_def Let_def)

text \<open>
  C5: on an iteration that fetches the status (the time limit is not exceeded),
  the poller goes to Converged exactly when the snapshot has a positive total
  and as many indexed documents; when the total is 0 it stays in Polling and
  reports that it is waiting for the documents to appear.
\<close>

theorem poll_tick_converged_iff:
  assumes "\<not> now env - monitoring_start_time run > max_wait_time"
    and "check_corpus_indexed (status_response env) = (ws, Inr (b, indexed_count, total_count))"
  shows "(next_state (poll_tick run tokens env) = Converged
           \<longleftrightarrow> total_count > 0 \<and> indexed_count = total_count)
       \<and> (total_count = 0 \<longrightarrow>
            next_state (poll_tick run tokens env) = Polling
            \<and> shown (poll_tick run tokens env)
                = ws @ [InfoWaiting (now env - monitoring_start_time run)])"
  using poll_tick_fetch [OF assms, of tokens] by auto

text \<open>C5 at two snapshots, 1 of 1 indexed and no document visible, 5 seconds into the loop.\<close>

theorem poll_tick_converged_iff_witness:
  "next_state (poll_tick example_run 7
      \<lparr>now = 25, status_response = Inr [indexed_doc ''maud_a.txt''], now_done = 26\<rparr>) = Converged
   \<and> next_state (poll_tick example_run 7 \<lparr>now = 25, status_response = Inr [], now_done = 26\<rparr>)
       = Polling
   \<and> shown (poll_tick example_run 7 \<lparr>now = 25, status_response = Inr [], now_done = 26\<rparr>)
       = [InfoWaiting 5]"
proof -
  let ?e1 = "\<lparr>now = 25, status_response = Inr [indexed_doc ''maud_a.txt''], now_done = 26\<rparr>"
  let ?e2 = "\<lparr>now = 25, status_response = Inr [], now_done = 26 :: real\<rparr>"
  have t1: "\<not> now ?e1 - monitoring_start_time example_run > max_wait_time"
    and t2: "\<not> now ?e2 - monitoring_start_time example_run > max_wait_time"
    by (simp_all add: example_run_def start_run_def max_wait_time_def)
  have c1: "check_corpus_indexed (status_response ?e1) = ([], Inr (True, 1, 1))"
    by (simp add: check_corpus_indexed_def indexed_doc_def)
  have c2: "check_corpus_indexed (status_response ?e2) = ([], Inr (False, 0, 0))"
    by (simp add: check_corpus_indexed_def)
  show ?thesis
    using poll_tick_converged_iff [OF t1 c1, of 7] poll_tick_converged_iff [OF t2 c2, of 7]
    by (simp add: example_run_def start_run_def)
qed

text \<open>
  C2: what an iteration does when the status query raises.  The exception is
  caught inside \<open>check_corpus_indexed\<close>, which answers \<open>(False, 0, 0)\<close>; the handler
  of the loop that would stop it is never reached.  So the poller never goes to
  Errored: within the time limit it shows the warning, reports that it is
  waiting, and stays in Polling.
\<close>

theorem poll_tick_query_failure_keeps_polling:
  "poll_tick run tokens (env\<lparr>status_response := Inl e\<rparr>) =
     (if now env - monitoring_start_time run > max_wait_time
      then \<lparr>next_state = TimedOut, shown = [WarnTimeout], saved_stats = None, fetched = False\<rparr>
      else \<lparr>next_state = Polling,
            shown = [WarnCouldNotCheck e, InfoWaiting (now env - monitoring_start_time run)],
            saved_stats = None, fetched = True\<rparr>)"
  by (simp add: poll_tick_def check_corpus_indexed_def Let_def)




subsection \<open>Upload\<close>

lemma upload_body_counts:
  "failed_docs (upload_body add n i doc st) =
     failed_docs st + (case add i of Inr u \<Rightarrow> 0 | Inl e \<Rightarrow> if is_conflict e then 0 else 1)"
  "successful_docs (upload_body add n i doc st) =
     successful_docs st + (case add i of Inr u \<Rightarrow> 1 | Inl e \<Rightarrow> 0)"
  by (simp_all add: upload_body_def Let_def is_conflict_def split: sum.splits)

lemma upload_loop_failed:
  "failed_docs (upload_loop add n i docs st) =
     failed_docs st
     + length (filter (\<lambda>j. case add j of Inr u \<Rightarrow> False | Inl e \<Rightarrow> \<not> is_conflict e)
         [i..<i + length docs])"
proof (induction docs arbitrary: i st)
  case Nil
  then show ?case by simp
next
  case (Cons doc docs)
  have "[i..<i + length (doc # docs)] = i # [Suc i..<Suc i + length docs]"
    by (simp add: upt_rec)
  then show ?case
    by (simp add: Cons.IH upload_body_counts split: sum.splits)
qed

lemma upload_loop_successful:
  "successful_docs (upload_loop add n i docs st) =
     successful_docs st + length (filter (\<lambda>j. \<not> isl (add j)) [i..<i + length docs])"
proof (induction docs arbitrary: i st)
  case Nil
  then show ?case by simp
next
  case (Cons doc docs)
  have "[i..<i + length (doc # docs)] = i # [Suc i..<Suc i + length docs]"
    by (simp add: upt_rec)
  then show ?case
    by (simp add: Cons.IH upload_body_counts split: sum.splits)
qed

text \<open>
  C1, as stated, fails: of three documents the second meets a conflict and the
  others are accepted; no failure is counted, but only 2 successes are, not 3.
\<close>

theorem upload_conflict_not_counted_counterexample:
  "is_conflict ''Error code: 409 - document already exists''
   \<and> length three_docs = 3
   \<and> successful_docs (upload second_conflicts three_docs) = 2
   \<and> failed_docs (upload second_conflicts three_docs) = 0"
proof -
  have c: "is_conflict ''Error code: 409 - document already exists''"
    by (simp add: is_conflict_def)
  show ?thesis
    using c
    by (simp add: upload_def upload_body_counts three_docs_def second_conflicts_def)
qed

text \<open>
  C1, amended: when every submission is accepted or meets a conflict, no failure
  is counted and the successes counted are the accepted submissions; a conflict
  is counted neither as a success nor as a failure, so the successes and the
  conflicts together are all the documents.
\<close>

theorem upload_conflicts_are_not_failures:
  assumes "\<forall>j<length docs. case add j of Inr u \<Rightarrow> True | Inl e \<Rightarrow> is_conflict e"
  shows "failed_docs (upload add docs) = 0
       \<and> successful_docs (upload add docs)
           = length (filter (\<lambda>j. \<not> isl (add j)) [0..<length docs])
       \<and> successful_docs (upload add docs) + length (filter (\<lambda>j. isl (add j)) [0..<length docs])
           = length docs"
proof -
  have "filter (\<lambda>j. case add j of Inr u \<Rightarrow> False | Inl e \<Rightarrow> \<not> is_conflict e) [0..<length docs]
        = []"
    using assms by (auto simp: filter_empty_conv split: sum.splits)
  then have f: "failed_docs (upload add docs) = 0"
    by (simp add: upload_def upload_loop_failed)
  have s: "successful_docs (upload add docs)
           = length (filter (\<lambda>j. \<not> isl (add j)) [0..<length docs])"
    by (simp add: upload_def upload_loop_successful)
  have "length (filter (\<lambda>j. \<not> isl (add j)) [0..<length docs])
        + length (filter (\<lambda>j. isl (add j)) [0..<length docs]) = length [0..<length docs]"
    using sum_length_filter_compl [of "\<lambda>j. isl (add j)" "[0..<length docs]"] by simp
  with f s show ?thesis by simp
qed

text \<open>C1, amended, on the three documents of which the second meets a conflict.\<close>

theorem upload_conflicts_are_not_failures_witness:
  "failed_docs (upload second_conflicts three_docs) = 0
   \<and> successful_docs (upload second_conflicts three_docs)
       = length (filter (\<lambda>j. \<not> isl (second_conflicts j)) [0..<length three_docs])"
proof -
  have c: "is_conflict ''Error code: 409 - document already exists''"
    by (simp add: is_conflict_def)
  have h: "\<forall>j<length three_docs.
             case second_conflicts j of Inr u \<Rightarrow> True | Inl e \<Rightarrow> is_conflict e"
    using c by (simp add: second_conflicts_def)
  show ?thesis
    using upload_conflicts_are_not_failures [OF h] by simp
qed

subsection \<open>Extraction\<close>

lemma read_file_cases:
  "read_file corpus_name (ds, ws) f =
     (if kept f then (ds @ [document_of corpus_name f], ws)
      else if unreadable f then (ds, ws @ [warning_of f])
      else (ds, ws))"
  by (cases "file_read f")
     (simp_all add: read_file_def kept_def unreadable_def included_def document_of_def
       warning_of_def Let_def)

lemma foldl_read_file:
  "foldl (read_file corpus_name) (ds, ws) files =
     (ds @ map (document_of corpus_name) (filter kept files),
      ws @ map warning_of (filter unreadable files))"
proof (induction files arbitrary: ds ws)
  case Nil
  then show ?case by simp
next
  case (Cons f files)
  have k: "kept f \<Longrightarrow> \<not> unreadable f"
    by (cases "file_read f") (simp_all add: kept_def unreadable_def)
  show ?case
    using k by (simp add: read_file_cases Cons.IH)
qed


lemma included_examples:
  "included ''a.txt''" "included ''b.txt''" "included ''a.json''" "included ''b.txt.txt''"
  by (simp_all add: included_def endswith_def suffix_def)



lemma no_straddle:
  assumes "d \<notin> set rest" and "\<not> prefix (d # rest) (c # cs)"
  shows "\<not> prefix (d # rest) (c # cs @ d # t)"
proof
  assume "prefix (d # rest) (c # cs @ d # t)"
  then have dc: "d = c" and p: "prefix rest (cs @ d # t)"
    by auto
  from p consider "prefix rest cs" | us where "rest = cs @ us" "prefix us (d # t)"
    by (auto simp: prefix_append)
  then show False
  proof cases
    case 1
    with dc assms(2) show False by simp
  next
    case 2
    show False
    proof (cases us)
      case Nil
      with 2 dc assms(2) show False by simp
    next
      case (Cons u us')
      with 2 have "u = d" by simp
      with 2 Cons assms(1) show False by simp
    qed
  qed
qed

lemma remove_all_skip:
  "\<not> prefix old (c # cs) \<Longrightarrow> remove_all old (c # cs) = c # remove_all old cs"
  by simp

lemma remove_all_absent: "\<not> contains old s \<Longrightarrow> remove_all old s = s"
  by (induction s) simp_all

lemma contains_append_fresh:
  assumes "d \<notin> set rest" and "\<not> contains (d # rest) (d # t)"
  shows "\<not> contains (d # rest) s \<Longrightarrow> \<not> contains (d # rest) (s @ d # t)"
proof (induction s)
  case Nil
  with assms show ?case by simp
next
  case (Cons c cs)
  then have np: "\<not> prefix (d # rest) (c # cs)" and nc: "\<not> contains (d # rest) cs"
    by simp_all
  from no_straddle [OF assms(1) np] Cons.IH [OF nc] show ?case
    by simp
qed

lemma remove_all_suffix:
  assumes "d \<notin> set rest"
  shows "\<not> contains (d # rest) s \<Longrightarrow> remove_all (d # rest) (s @ d # rest) = s"
proof (induction s)
  case Nil
  show ?case by simp
next
  case (Cons c cs)
  then have np: "\<not> prefix (d # rest) (c # cs)" and nc: "\<not> contains (d # rest) cs"
    by simp_all
  have "remove_all (d # rest) (c # cs @ d # rest) = c # remove_all (d # rest) (cs @ d # rest)"
    by (rule remove_all_skip) (rule no_straddle [OF assms np])
  with Cons.IH [OF nc] show ?case
    by simp
qed

lemma make_id_stem:
  assumes "\<not> contains ''.txt'' stem" and "\<not> contains ''.json'' stem"
  shows "make_id corpus_name (stem @ ''.txt'') = corpus_name @ ''_'' @ stem"
    and "make_id corpus_name (stem @ ''.json'') = corpus_name @ ''_'' @ stem"
proof -
  have "remove_all ''.txt'' (stem @ ''.txt'') = stem"
    using assms(1) by (intro remove_all_suffix) simp_all
  then show "make_id corpus_name (stem @ ''.txt'') = corpus_name @ ''_'' @ stem"
    using assms(2) by (simp add: make_id_def remove_all_absent)
  have "\<not> contains ''.txt'' (stem @ ''.json'')"
    using assms(1) by (intro contains_append_fresh) simp_all
  then have "remove_all ''.txt'' (stem @ ''.json'') = stem @ ''.json''"
    by (rule remove_all_absent)
  moreover have "remove_all ''.json'' (stem @ ''.json'') = stem"
    using assms(2) by (intro remove_all_suffix) simp_all
  ultimately show "make_id corpus_name (stem @ ''.json'') = corpus_name @ ''_'' @ stem"
    by (simp add: make_id_def)
qed

lemma distinct_map_prepend: "distinct (map (\<lambda>x. p @ x) xs) \<longleftrightarrow> distinct xs"
  by (induction xs) auto

text \<open>
  C3, amended: the id of every extracted document is the corpus name, an
  underscore, and the file name with every \<open>.txt\<close> and then every \<open>.json\<close> removed;
  for a file named \<open>stem.txt\<close> or \<open>stem.json\<close> whose stem contains neither, that is the
  base name without its extension.  The ids are pairwise distinct exactly when
  the file names so stripped are.
\<close>

theorem download_corpus_ids:
  assumes "download_corpus response corpus_name = Inr (docs, ws)"
  shows "(\<forall>d \<in> set docs.
            doc_id d = corpus_name @ ''_'' @ remove_all ''.json'' (remove_all ''.txt'' (doc_filename d))
            \<and> (\<forall>stem. \<not> contains ''.txt'' stem \<and> \<not> contains ''.json'' stem
                  \<and> (doc_filename d = stem @ ''.txt'' \<or> doc_filename d = stem @ ''.json'')
                  \<longrightarrow> doc_id d = corpus_name @ ''_'' @ stem))
       \<and> (distinct (map doc_id docs)
            \<longleftrightarrow> distinct (map (\<lambda>d. remove_all ''.json'' (remove_all ''.txt'' (doc_filename d))) docs))"
proof -
  from assms obtain files where "response = Inr (Extracted files)"
    by (auto simp: download_corpus_def split: sum.splits archive.splits)
  with assms have docs: "docs = map (document_of corpus_name) (filter kept files)"
    by (simp add: download_corpus_def foldl_read_file)
  have ids: "doc_id d = make_id corpus_name (doc_filename d)" if "d \<in> set docs" for d
    using that docs by (auto simp: document_of_def)
  have stems: "doc_id d = corpus_name @ ''_'' @ stem"
    if "d \<in> set docs" "\<not> contains ''.txt'' stem" "\<not> contains ''.json'' stem"
      "doc_filename d = stem @ ''.txt'' \<or> doc_filename d = stem @ ''.json''" for d stem
    using that ids [of d] make_id_stem [of stem corpus_name] by auto
  have e: "map doc_id docs
        = map (\<lambda>x. (corpus_name @ ''_'') @ x)
            (map (\<lambda>d. remove_all ''.json'' (remove_all ''.txt'' (doc_filename d))) docs)"
    using ids by (simp add: make_id_def)
  have "distinct (map doc_id docs)
      \<longleftrightarrow> distinct (map (\<lambda>d. remove_all ''.json'' (remove_all ''.txt'' (doc_filename d))) docs)"
    unfolding e by (rule distinct_map_prepend)
  with ids stems show ?thesis
    by (auto simp: make_id_def)
qed

text \<open>
  C3, as stated, fails: \<open>a.txt\<close> and \<open>a.json\<close> get the same id, and the id of
  \<open>b.txt.txt\<close> is \<open>maud_b\<close>, not \<open>maud_b.txt\<close>.
\<close>

theorem download_corpus_ids_counterexample:
  "download_corpus
     (Inr (Extracted [readable ''a.txt'' ''alpha'', readable ''a.json'' ''beta'',
                      readable ''b.txt.txt'' ''gamma''])) ''maud''
   = Inr ([\<lparr>doc_id = ''maud_a'', doc_content = ''alpha'', doc_filename = ''a.txt'',
             doc_corpus_name = ''maud'', doc_original_path = ''a.txt''\<rparr>,
           \<lparr>doc_id = ''maud_a'', doc_content = ''beta'', doc_filename = ''a.json'',
             doc_corpus_name = ''maud'', doc_original_path = ''a.json''\<rparr>,
           \<lparr>doc_id = ''maud_b'', doc_content = ''gamma'', doc_filename = ''b.txt.txt'',
             doc_corpus_name = ''maud'', doc_original_path = ''b.txt.txt''\<rparr>], [])"
  by code_simp

text \<open>
  C3, amended, on an archive with the one file \<open>a.txt\<close>.
\<close>

theorem download_corpus_ids_witness:
  "doc_id (text_doc ''a.txt'' ''alpha'') = ''maud_a''"
proof -
  have h: "download_corpus (Inr (Extracted [readable ''a.txt'' ''alpha''])) ''maud''
           = Inr ([text_doc ''a.txt'' ''alpha''], [])"
    by code_simp
  have s: "\<not> contains ''.txt'' ''a''" "\<not> contains ''.json'' ''a''"
    by simp_all
  have f: "doc_filename (text_doc ''a.txt'' ''alpha'') = ''a'' @ ''.txt''"
    by (simp add: text_doc_def)
  from download_corpus_ids [OF h] s f show ?thesis
    by auto
qed

subsection \<open>The poll loop\<close>

lemma poll_tick_fetched:
  "fetched (poll_tick run tokens env) \<longleftrightarrow> \<not> now env - monitoring_start_time run > max_wait_time"
  by (cases "status_response env")
     (simp_all add: poll_tick_def check_corpus_indexed_def Let_def)

lemma poll_tick_timed_out:
  "now env - monitoring_start_time run > max_wait_time \<Longrightarrow>
   next_state (poll_tick run tokens env) = TimedOut"
  by (simp add: poll_tick_def Let_def)

lemma elapsed_lower:
  assumes "monitoring_start_time run \<le> now (envs 0)"
    and "\<forall>k. now (envs k) + check_interval \<le> now (envs (Suc k))"
  shows "real k * check_interval \<le> now (envs k) - monitoring_start_time run"
proof (induction k)
  case 0
  with assms(1) show ?case by simp
next
  case (Suc k)
  from assms(2) have "now (envs k) + check_interval \<le> now (envs (Suc k))"
    by blast
  with Suc show ?case
    by (simp add: algebra_simps)
qed

lemma poll_loop_bounded:
  assumes late: "\<forall>j\<ge>K. now (envs j) - monitoring_start_time run > max_wait_time"
  shows "k \<le> K \<Longrightarrow> K - k < fuel \<Longrightarrow>
     \<exists>res. poll_loop fuel run tokens envs k = Some res \<and> final_state res \<noteq> Polling
       \<and> iterations res \<le> Suc K \<and> status_fetches res \<le> K - k"
proof (induction fuel arbitrary: k)
  case 0
  then show ?case by simp
next
  case (Suc fuel)
  let ?r = "poll_tick run tokens (envs k)"
  show ?case
  proof (cases "next_state ?r = Polling")
    case False
    have "(if fetched ?r then 1 else 0) \<le> K - k"
    proof (cases "fetched ?r")
      case True
      then have "\<not> now (envs k) - monitoring_start_time run > max_wait_time"
        by (simp add: poll_tick_fetched)
      with late have "k < K"
        by (meson not_le_imp_less)
      then have "1 \<le> K - k" by arith
      with True show ?thesis by simp
    next
      case False
      then show ?thesis by simp
    qed
    with False Suc.prems show ?thesis
      by (simp add: Let_def)
  next
    case True
    then have within: "\<not> now (envs k) - monitoring_start_time run > max_wait_time"
      using poll_tick_timed_out [of "envs k" run tokens] by auto
    with late have "k < K"
      by (meson not_le_imp_less)
    with Suc.prems have "Suc k \<le> K" "K - Suc k < fuel"
      by simp_all
    from Suc.IH [OF this] obtain res where
      res: "poll_loop fuel run tokens envs (Suc k) = Some res" "final_state res \<noteq> Polling"
        "iterations res \<le> Suc K" "status_fetches res \<le> K - Suc k"
      by blast
    with True \<open>k < K\<close> show ?thesis
      by (auto simp: Let_def)
  qed
qed

text \<open>
  C6, amended: when the clock is not before the start of the loop at the first
  reading and advances by at least the check interval from one iteration to the
  next, the loop ends for every sequence of status answers: an iteration on which
  the elapsed time exceeds the limit goes to TimedOut without fetching the status,
  at most \<open>max_wait_time / check_interval + 1\<close> iterations fetch the status, and the
  loop ends at the latest on iteration \<open>max_wait_time / check_interval + 2\<close>.
\<close>

theorem poll_loop_terminates:
  assumes "monitoring_start_time run \<le> now (envs 0)"
    and "\<forall>k. now (envs k) + check_interval \<le> now (envs (Suc k))"
    and "nat \<lfloor>max_wait_time / check_interval\<rfloor> + 2 \<le> fuel"
  shows "(\<exists>res. poll_loop fuel run tokens envs 0 = Some res
            \<and> final_state res \<noteq> Polling
            \<and> status_fetches res \<le> nat \<lfloor>max_wait_time / check_interval\<rfloor> + 1
            \<and> iterations res \<le> nat \<lfloor>max_wait_time / check_interval\<rfloor> + 2)
       \<and> (\<forall>env. now env - monitoring_start_time run > max_wait_time
             \<longrightarrow> next_state (poll_tick run tokens env) = TimedOut
                 \<and> \<not> fetched (poll_tick run tokens env))"
proof -
  have n: "nat \<lfloor>max_wait_time / check_interval\<rfloor> = 120"
    by (simp add: max_wait_time_def check_interval_def)
  have late: "\<forall>j\<ge>121. now (envs j) - monitoring_start_time run > max_wait_time"
  proof (intro allI impI)
    fix j :: nat
    assume "121 \<le> j"
    then have "605 \<le> real j * check_interval"
      by (simp add: check_interval_def)
    with elapsed_lower [OF assms(1,2), of j] show "now (envs j) - monitoring_start_time run > max_wait_time"
      by (simp add: max_wait_time_def)
  qed
  from assms(3) n have "121 - 0 < fuel"
    by simp
  from poll_loop_bounded [OF late _ this, of tokens] n show ?thesis
    by (auto simp: poll_tick_timed_out poll_tick_fetched)
qed

lemma steady_waiting_loop:
  "fuel + k = 122 \<Longrightarrow> 0 < fuel \<Longrightarrow>
   \<exists>res. poll_loop fuel example_run tokens steady_waiting k = Some res
     \<and> final_state res = TimedOut \<and> iterations res = 122 \<and> status_fetches res = fuel - 1"
proof (induction fuel arbitrary: k)
  case 0
  then show ?case by simp
next
  case (Suc fuel)
  show ?case
  proof (cases "fuel = 0")
    case True
    with Suc.prems have "k = 121" by simp
    then show ?thesis
      using True
      by (simp add: poll_tick_def Let_def steady_waiting_def example_run_def start_run_def
          max_wait_time_def)
  next
    case False
    with Suc.prems have k: "k \<le> 120" and p: "fuel + Suc k = 122" "0 < fuel"
      by simp_all
    from k have "real k \<le> 120" by simp
    then have t: "poll_tick example_run tokens (steady_waiting k) =
        \<lparr>next_state = Polling, shown = [InfoWaiting (5 * real k)], saved_stats = None, fetched = True\<rparr>"
      by (simp add: poll_tick_def check_corpus_indexed_def Let_def steady_waiting_def
          example_run_def start_run_def max_wait_time_def)
    from Suc.IH [OF p] obtain res where
      "poll_loop fuel example_run tokens steady_waiting (Suc k) = Some res"
      "final_state res = TimedOut" "iterations res = 122" "status_fetches res = fuel - 1"
      by blast
    with t p show ?thesis
      by (simp add: Let_def)
  qed
qed

text \<open>
  C6, as stated, fails: with clock readings exactly 5 seconds apart and no
  document ever visible, iterations 1 to 121 (elapsed 0 to 600) fetch the status
  and iteration 122 (elapsed 605) times out: 122 iterations, one more than
  \<open>max_wait_time / check_interval + 1\<close>.
\<close>

theorem poll_loop_iterations_counterexample:
  "nat \<lfloor>max_wait_time / check_interval\<rfloor> + 1 = 121
   \<and> map_option final_state (poll_loop 122 example_run 7 steady_waiting 0) = Some TimedOut
   \<and> map_option iterations (poll_loop 122 example_run 7 steady_waiting 0) = Some 122
   \<and> map_option status_fetches (poll_loop 122 example_run 7 steady_waiting 0) = Some 121"
proof -
  from steady_waiting_loop [of 122 0 7] obtain res where
    "poll_loop 122 example_run 7 steady_waiting 0 = Some res"
    "final_state res = TimedOut" "iterations res = 122" "status_fetches res = 121"
    by auto
  then show ?thesis
    by (simp add: max_wait_time_def check_interval_def)
qed

text \<open>
  C6, amended, on the same run.
\<close>

theorem poll_loop_terminates_witness:
  "\<exists>res. poll_loop 122 example_run 7 steady_waiting 0 = Some res
     \<and> final_state res \<noteq> Polling \<and> status_fetches res \<le> 121 \<and> iterations res \<le> 122"
proof -
  have a: "monitoring_start_time example_run \<le> now (steady_waiting 0)"
    by (simp add: example_run_def start_run_def steady_waiting_def)
  have b: "\<forall>k. now (steady_waiting k) + check_interval \<le> now (steady_waiting (Suc k))"
    by (simp add: steady_waiting_def check_interval_def)
  have n: "nat \<lfloor>max_wait_time / check_interval\<rfloor> = 120"
    by (simp add: max_wait_time_def check_interval_def)
  then have c: "nat \<lfloor>max_wait_time / check_interval\<rfloor> + 2 \<le> 122"
    by simp
  from poll_loop_terminates [OF a b c, of 7] n show ?thesis
    by simp
qed








subsection \<open>Query evaluation\<close>










end
